theory Spec2Isabelle
  imports Main "HOL-Library.Word"
begin

unbundle bit_operations_syntax

section \<open>The polling file watcher (package fswatcher)\<close>

subsection \<open>Events and operations\<close>

text \<open>\<^verbatim>\<open>type Op uint32\<close> with \<^verbatim>\<open>Create Op = 1 << iota\<close>, then \<^verbatim>\<open>Write\<close>, \<^verbatim>\<open>Remove\<close>.\<close>

type_synonym Op = "32 word"

definition Create :: Op where
  "Create = push_bit 0 1"

definition Write :: Op where
  "Write = push_bit 1 1"

definition Remove :: Op where
  "Remove = push_bit 2 1"

text \<open>\<^verbatim>\<open>func (o Op) Has(h Op) bool { return o&h != 0 }\<close>\<close>

definition Has :: "Op \<Rightarrow> Op \<Rightarrow> bool" where
  "Has opv h = (opv AND h \<noteq> 0)"

record Event =
  Name :: string
  Op :: Op

subsection \<open>Errors of the os package, as far as the watcher inspects them\<close>

text \<open>
  An error value is the sentinel \<^verbatim>\<open>os.ErrNotExist\<close>, a \<^verbatim>\<open>syscall.Errno\<close>, a
  \<^verbatim>\<open>*fs.PathError{Op, Path, Err}\<close> wrapping a cause, or any other error.
\<close>

datatype go_error =
    ErrNotExist
  | Errno nat
  | PathError string string go_error
  | ErrOther string

definition ENOENT :: nat where
  "ENOENT = 2"

definition EACCES :: nat where
  "EACCES = 13"

text \<open>\<^verbatim>\<open>os.underlyingError\<close> strips one \<^verbatim>\<open>*PathError\<close> wrapper.\<close>

fun underlyingError :: "go_error \<Rightarrow> go_error" where
  "underlyingError (PathError oper p e) = e"
| "underlyingError e = e"

text \<open>\<^verbatim>\<open>os.IsNotExist(err)\<close> for a non-nil \<^verbatim>\<open>err\<close>: the underlying error is
  \<^verbatim>\<open>ErrNotExist\<close> or the errno \<^verbatim>\<open>ENOENT\<close>.\<close>

definition IsNotExist :: "go_error \<Rightarrow> bool" where
  "IsNotExist err = (underlyingError err = ErrNotExist \<or> underlyingError err = Errno ENOENT)"

text \<open>\<^verbatim>\<open>var pathError *fs.PathError; errors.As(err, &pathError)\<close>: some error of the
  unwrap chain is a \<^verbatim>\<open>*fs.PathError\<close>. Only \<^verbatim>\<open>PathError\<close> has a cause to unwrap.\<close>

fun AsPathError :: "go_error \<Rightarrow> bool" where
  "AsPathError (PathError oper p e) = True"
| "AsPathError e = False"

subsection \<open>File information and the file system seen by one poll cycle\<close>

text \<open>
  Of \<^verbatim>\<open>os.FileInfo\<close> the watcher reads \<^verbatim>\<open>Mode()&os.ModeSymlink != 0\<close>, \<^verbatim>\<open>Size()\<close> (an
  int64, only compared) and \<^verbatim>\<open>ModTime()\<close> (a \<^verbatim>\<open>time.Time\<close>, only compared with \<^verbatim>\<open>!=\<close>;
  here a number that identifies the time value).
\<close>

record FileInfo =
  ModeSymlink :: bool
  Size :: int
  ModTime :: int

text \<open>\<^verbatim>\<open>os.Lstat\<close> and \<^verbatim>\<open>os.Stat\<close> return either a file info and a nil error, or a nil
  file info and an error.\<close>

datatype stat_result = StatOk FileInfo | StatErr go_error

text \<open>
  The calls the watcher makes into the standard library during one cycle:
  \<^verbatim>\<open>os.Lstat\<close>, \<^verbatim>\<open>os.Readlink\<close>, \<^verbatim>\<open>os.Stat\<close>, and the pure path functions
  \<^verbatim>\<open>filepath.IsAbs\<close>, \<^verbatim>\<open>filepath.Dir\<close>, \<^verbatim>\<open>filepath.Join\<close>.
\<close>

record filesys =
  Lstat :: "string \<Rightarrow> stat_result"
  Readlink :: "string \<Rightarrow> go_error + string"
  Stat :: "string \<Rightarrow> stat_result"
  IsAbs :: "string \<Rightarrow> bool"
  Dir :: "string \<Rightarrow> string"
  Join :: "string \<Rightarrow> string \<Rightarrow> string"

subsection \<open>Tracking state\<close>

text \<open>\<^verbatim>\<open>type state struct { path string; info os.FileInfo; target string; targetInfo os.FileInfo }\<close>;
  a nil \<^verbatim>\<open>os.FileInfo\<close> is \<open>None\<close>.\<close>

record state =
  path :: string
  info :: "FileInfo option"
  target :: string
  targetInfo :: "FileInfo option"

text \<open>What one cycle hands to the consumer: \<^verbatim>\<open>sendEvent\<close> on \<^verbatim>\<open>Events\<close>, \<^verbatim>\<open>sendError\<close> on
  \<^verbatim>\<open>Errors\<close>, in the order of the calls. A send that loses the race against the stop
  channel belongs to the shutdown and is outside this model.\<close>

datatype sent = Emit Event | Fail go_error

text \<open>\<^verbatim>\<open>state{path: f}\<close>: every other field has its zero value.\<close>

definition empty_state :: "string \<Rightarrow> state" where
  "empty_state f = \<lparr>path = f, info = None, target = [], targetInfo = None\<rparr>"

text \<open>\<^verbatim>\<open>New\<close>: the map of tracked files, each with empty state.\<close>

definition New :: "string list \<Rightarrow> (string \<rightharpoonup> state)" where
  "New trackedFiles = fold (\<lambda>f tracked. tracked(f \<mapsto> empty_state f)) trackedFiles Map.empty"

subsection \<open>One iteration of the loop in tick\<close>

text \<open>The resolved target: a relative link is joined to the directory of the watched path.\<close>

definition resolve_target :: "filesys \<Rightarrow> string \<Rightarrow> string \<Rightarrow> string" where
  "resolve_target fs p t = (if \<not> IsAbs fs t then Join fs (Dir fs p) t else t)"

text \<open>The test on the error of \<^verbatim>\<open>os.Stat(target)\<close>: a \<^verbatim>\<open>*fs.PathError\<close> sends \<^verbatim>\<open>Remove\<close>
  when a target info was stored, any other error goes to \<^verbatim>\<open>Errors\<close>.\<close>

definition target_error :: "state \<Rightarrow> stat_result \<Rightarrow> sent list" where
  "target_error oldState r =
     (case r of
        StatOk ti \<Rightarrow> []
      | StatErr err \<Rightarrow>
          if AsPathError err then
            (if targetInfo oldState \<noteq> None
             then [Emit \<lparr>Name = path oldState, Op = Remove\<rparr>] else [])
          else [Fail err])"

text \<open>The comparison of the stored target info with the new one.\<close>

definition target_change :: "state \<Rightarrow> string \<Rightarrow> stat_result \<Rightarrow> sent list" where
  "target_change oldState t r =
     (case targetInfo oldState of
        None \<Rightarrow>
          (case r of
             StatOk ti \<Rightarrow>
               [Emit \<lparr>Name = path oldState,
                      Op = (if Size ti > 0 then Create OR Write else Create)\<rparr>]
           | StatErr err \<Rightarrow> [])
      | Some oti \<Rightarrow>
          (case r of
             StatOk ti \<Rightarrow>
               if target oldState \<noteq> t \<or> Size oti \<noteq> Size ti \<or> ModTime oti \<noteq> ModTime ti
               then [Emit \<lparr>Name = path oldState, Op = Write\<rparr>] else []
           | StatErr err \<Rightarrow> []))"

text \<open>The branch for a path that is not a symlink.\<close>

definition plain_change :: "state \<Rightarrow> FileInfo \<Rightarrow> sent list" where
  "plain_change oldState i =
     (case info oldState of
        None \<Rightarrow>
          [Emit \<lparr>Name = path oldState,
                 Op = (if Size i > 0 then Create OR Write else Create)\<rparr>]
      | Some oldInfo \<Rightarrow>
          if ModTime i \<noteq> ModTime oldInfo \<or> Size i \<noteq> Size oldInfo
          then [Emit \<lparr>Name = path oldState, Op = Write\<rparr>] else [])"

fun stat_info :: "stat_result \<Rightarrow> FileInfo option" where
  "stat_info (StatOk i) = Some i"
| "stat_info (StatErr err) = None"

text \<open>
  The body of the loop for one tracked entry. The result is the state written to
  \<^verbatim>\<open>w.tracked[oldState.path]\<close> (\<open>None\<close> when the iteration leaves by \<^verbatim>\<open>continue\<close> without
  writing) and the events and errors sent, in order.
\<close>

definition tick_entry :: "filesys \<Rightarrow> state \<Rightarrow> state option \<times> sent list" where
  "tick_entry fs oldState =
     (case Lstat fs (path oldState) of
        StatErr err \<Rightarrow>
          if IsNotExist err then
            (if info oldState \<noteq> None
             then (Some \<lparr>path = path oldState, info = None, target = [], targetInfo = None\<rparr>,
                   [Emit \<lparr>Name = path oldState, Op = Remove\<rparr>])
             else (None, []))
          else (None, [Fail err])
      | StatOk i \<Rightarrow>
          if ModeSymlink i then
            (case Readlink fs (path oldState) of
               Inl err \<Rightarrow> (None, [])
             | Inr t0 \<Rightarrow>
                 let t = resolve_target fs (path oldState) t0;
                     r = Stat fs t
                 in (Some \<lparr>path = path oldState, info = Some i, target = t,
                           targetInfo = stat_info r\<rparr>,
                     target_error oldState r @ target_change oldState t r))
          else
            (Some \<lparr>path = path oldState, info = Some i, target = [], targetInfo = None\<rparr>,
             plain_change oldState i))"

subsection \<open>The whole cycle\<close>

text \<open>
  \<^verbatim>\<open>for _, oldState := range w.tracked\<close>: the keys are visited in an order Go leaves
  unspecified, here the list \<open>ks\<close>. Each iteration reads the entry of its key and may
  write the entry of \<^verbatim>\<open>oldState.path\<close> (\<open>write_back\<close>).
\<close>

definition write_back :: "(string \<rightharpoonup> state) \<Rightarrow> state \<Rightarrow> state option \<Rightarrow> (string \<rightharpoonup> state)" where
  "write_back tracked oldState upd =
     (case upd of None \<Rightarrow> tracked | Some newState \<Rightarrow> tracked(path oldState \<mapsto> newState))"

fun tick :: "filesys \<Rightarrow> string list \<Rightarrow> (string \<rightharpoonup> state) \<Rightarrow> (string \<rightharpoonup> state) \<times> sent list" where
  "tick fs [] tracked = (tracked, [])"
| "tick fs (k # ks) tracked =
     (case tracked k of
        None \<Rightarrow> tick fs ks tracked
      | Some oldState \<Rightarrow>
          (case tick_entry fs oldState of
             (upd, outs) \<Rightarrow>
               (case tick fs ks (write_back tracked oldState upd) of
                  (tracked', outs') \<Rightarrow> (tracked', outs @ outs'))))"

text \<open>The entry as stored after its iteration: the written state, or the old one.\<close>

definition step_state :: "filesys \<Rightarrow> state \<Rightarrow> state" where
  "step_state fs s = (case fst (tick_entry fs s) of None \<Rightarrow> s | Some s' \<Rightarrow> s')"

text \<open>A run of poll cycles, each with the file system it sees and the order in which the
  map is visited; the result keeps what every cycle sent.\<close>

fun run :: "(filesys \<times> string list) list \<Rightarrow> (string \<rightharpoonup> state) \<Rightarrow> (filesys \<times> sent list) list" where
  "run [] tracked = []"
| "run ((fs, ks) # cycles) tracked =
     (fs, snd (tick fs ks tracked)) # run cycles (fst (tick fs ks tracked))"

text \<open>Every cycle visits each key of the map once.\<close>

fun orders_ok :: "(filesys \<times> string list) list \<Rightarrow> string list \<Rightarrow> bool" where
  "orders_ok [] trackedFiles = True"
| "orders_ok ((fs, ks) # cycles) trackedFiles =
     (distinct ks \<and> set ks = set trackedFiles \<and> orders_ok cycles trackedFiles)"

subsection \<open>Reading what was sent\<close>

text \<open>The operations of the events sent for path \<open>p\<close>, in order.\<close>

fun events_for :: "string \<Rightarrow> sent list \<Rightarrow> Op list" where
  "events_for p [] = []"
| "events_for p (Emit e # xs) = (if Name e = p then Op e # events_for p xs else events_for p xs)"
| "events_for p (Fail err # xs) = events_for p xs"

subsection \<open>Reachable maps\<close>

text \<open>The maps a watcher can hold: the one built by \<^verbatim>\<open>New\<close>, and the one after a cycle
  that visited every key once.\<close>

inductive reachable :: "(string \<rightharpoonup> state) \<Rightarrow> bool" where
  reach_New: "reachable (New trackedFiles)"
| reach_tick: "reachable tracked \<Longrightarrow> distinct ks \<Longrightarrow> set ks = dom tracked
               \<Longrightarrow> reachable (fst (tick fs ks tracked))"

text \<open>Each entry is stored under its own path.\<close>

definition keyed :: "(string \<rightharpoonup> state) \<Rightarrow> bool" where
  "keyed tracked = (\<forall>k s. tracked k = Some s \<longrightarrow> path s = k)"

text \<open>The consistency of one entry: without own info there is no target, and a target info
  is stored only beside the info of a symlink.\<close>

definition entry_ok :: "state \<Rightarrow> bool" where
  "entry_ok s =
     ((info s = None \<longrightarrow> target s = [] \<and> targetInfo s = None) \<and>
      (targetInfo s \<noteq> None \<longrightarrow> (\<exists>i. info s = Some i \<and> ModeSymlink i)))"

subsection \<open>Sequences of Remove events\<close>

text \<open>No \<^verbatim>\<open>Remove\<close> follows a \<^verbatim>\<open>Remove\<close> without a \<^verbatim>\<open>Create\<close> between them; \<open>armed\<close> says
  that the last of the two seen so far was a \<^verbatim>\<open>Remove\<close>.\<close>

fun no_repeated_remove :: "bool \<Rightarrow> Op list \<Rightarrow> bool" where
  "no_repeated_remove armed [] = True"
| "no_repeated_remove armed (x # xs) =
     (\<not> (armed \<and> Has x Remove) \<and>
      no_repeated_remove
        (if Has x Create then False else if Has x Remove then True else armed) xs)"

text \<open>The path is seen as a symlink whose link can be read.\<close>

definition seen_symlink :: "filesys \<Rightarrow> string \<Rightarrow> bool" where
  "seen_symlink fs p =
     (case Lstat fs p of
        StatOk i \<Rightarrow> ModeSymlink i \<and> (case Readlink fs p of Inl err \<Rightarrow> False | Inr t \<Rightarrow> True)
      | StatErr err \<Rightarrow> False)"

text \<open>The path itself is reported as not existing.\<close>

definition seen_absent :: "filesys \<Rightarrow> string \<Rightarrow> bool" where
  "seen_absent fs p = (case Lstat fs p of StatOk i \<Rightarrow> False | StatErr err \<Rightarrow> IsNotExist err)"

text \<open>
  The discipline the cycles keep for path \<open>p\<close>. \<open>armed\<close>: the last \<^verbatim>\<open>Create\<close> or \<^verbatim>\<open>Remove\<close>
  sent for \<open>p\<close> was a \<^verbatim>\<open>Remove\<close>; \<open>linked\<close>: since the cycle of that \<^verbatim>\<open>Remove\<close> (included) the
  path was seen as a readable symlink. A \<^verbatim>\<open>Remove\<close> while armed is sent only in a cycle
  that finds the path itself absent, and only when \<open>linked\<close> holds.
\<close>

fun remove_discipline :: "string \<Rightarrow> bool \<Rightarrow> bool \<Rightarrow> (filesys \<times> sent list) list \<Rightarrow> bool" where
  "remove_discipline p armed linked [] = True"
| "remove_discipline p armed linked ((fs, outs) # rest) =
     (let ops = events_for p outs;
          created = list_ex (\<lambda>x. Has x Create) ops;
          removed = list_ex (\<lambda>x. Has x Remove) ops
      in (if armed \<and> removed then linked \<and> seen_absent fs p else True) \<and>
         remove_discipline p
           (if created then False else if removed then True else armed)
           (if created then False else if removed then seen_symlink fs p
            else (linked \<or> seen_symlink fs p))
           rest)"

subsection \<open>What a cycle observes of one path\<close>

text \<open>The results of the calls made for path \<open>p\<close>: the lstat, and for a symlink the link,
  its resolved target and the stat of that target.\<close>

definition observe :: "filesys \<Rightarrow> string \<Rightarrow> stat_result \<times> (go_error + string \<times> stat_result) option" where
  "observe fs p =
     (Lstat fs p,
      case Lstat fs p of
        StatErr err \<Rightarrow> None
      | StatOk i \<Rightarrow>
          if ModeSymlink i then
            Some (case Readlink fs p of
                    Inl err \<Rightarrow> Inl err
                  | Inr t0 \<Rightarrow> Inr (resolve_target fs p t0, Stat fs (resolve_target fs p t0)))
          else None)"

subsection \<open>Example file systems\<close>

text \<open>A tree with the file \<^verbatim>\<open>/d/a\<close> (5 bytes) and the relative symlink \<^verbatim>\<open>/d/s -> a\<close>; the
  path functions are those of a Unix system on these paths.\<close>

definition file_a :: FileInfo where
  "file_a = \<lparr>ModeSymlink = False, Size = 5, ModTime = 20\<rparr>"

definition link_s :: FileInfo where
  "link_s = \<lparr>ModeSymlink = True, Size = 1, ModTime = 10\<rparr>"

definition no_entry :: "string \<Rightarrow> string \<Rightarrow> stat_result" where
  "no_entry oper p = StatErr (PathError oper p (Errno ENOENT))"

definition fs_link :: filesys where
  "fs_link =
     \<lparr>Lstat = (\<lambda>p. if p = ''/d/s'' then StatOk link_s
                   else if p = ''/d/a'' then StatOk file_a else no_entry ''lstat'' p),
      Readlink = (\<lambda>p. if p = ''/d/s'' then Inr ''a''
                      else Inl (PathError ''readlink'' p (Errno 22))),
      Stat = (\<lambda>p. if p = ''/d/s'' \<or> p = ''/d/a'' then StatOk file_a else no_entry ''stat'' p),
      IsAbs = (\<lambda>p. take 1 p = ''/''),
      Dir = (\<lambda>p. ''/d''),
      Join = (\<lambda>d t. d @ ''/'' @ t)\<rparr>"

text \<open>The same tree after \<^verbatim>\<open>/d/a\<close> was deleted: the symlink dangles.\<close>

definition fs_dangling :: filesys where
  "fs_dangling =
     fs_link\<lparr>Lstat := (\<lambda>p. if p = ''/d/s'' then StatOk link_s else no_entry ''lstat'' p),
             Stat := (\<lambda>p. no_entry ''stat'' p)\<rparr>"

text \<open>The tree with nothing in it.\<close>

definition fs_empty :: filesys where
  "fs_empty =
     fs_link\<lparr>Lstat := (\<lambda>p. no_entry ''lstat'' p),
             Readlink := (\<lambda>p. Inl (PathError ''readlink'' p (Errno ENOENT))),
             Stat := (\<lambda>p. no_entry ''stat'' p)\<rparr>"

text \<open>The tree where \<^verbatim>\<open>/d/s\<close> is a regular file of 5 bytes.\<close>

definition fs_plain :: filesys where
  "fs_plain =
     fs_empty\<lparr>Lstat := (\<lambda>p. if p = ''/d/s'' then StatOk file_a else no_entry ''lstat'' p),
              Stat := (\<lambda>p. if p = ''/d/s'' then StatOk file_a else no_entry ''stat'' p)\<rparr>"

text \<open>The tree of \<open>fs_link\<close> after \<^verbatim>\<open>/d/a\<close> was rewritten: 6 bytes, a later time.\<close>

definition fs_grown :: filesys where
  "fs_grown =
     fs_link\<lparr>Stat := (\<lambda>p. if p = ''/d/s'' \<or> p = ''/d/a''
                          then StatOk \<lparr>ModeSymlink = False, Size = 6, ModTime = 30\<rparr>
                          else no_entry ''stat'' p)\<rparr>"

text \<open>The tree of \<open>fs_link\<close> after the directory \<^verbatim>\<open>/d\<close> lost its search permission for
  the watcher: \<^verbatim>\<open>os.Stat\<close> of the target fails with \<^verbatim>\<open>EACCES\<close>, as \<^verbatim>\<open>os.Stat\<close> reports every
  failure, in a \<^verbatim>\<open>*fs.PathError\<close>.\<close>

definition fs_target_denied :: filesys where
  "fs_target_denied = fs_link\<lparr>Stat := (\<lambda>p. StatErr (PathError ''stat'' p (Errno EACCES)))\<rparr>"

text \<open>The tree of \<open>fs_link\<close> where lstat is denied.\<close>

definition fs_denied :: filesys where
  "fs_denied = fs_link\<lparr>Lstat := (\<lambda>p. StatErr (PathError ''lstat'' p (Errno EACCES)))\<rparr>"

text \<open>The tree of \<open>fs_link\<close> where the link cannot be read.\<close>

definition fs_unreadable :: filesys where
  "fs_unreadable =
     fs_link\<lparr>Readlink := (\<lambda>p. Inl (PathError ''readlink'' p (Errno EACCES)))\<rparr>"

text \<open>A watcher of \<^verbatim>\<open>/d/s\<close> after its first cycle, on the tree with the symlink and on the
  tree with the regular file.\<close>

definition tracked_link :: "string \<rightharpoonup> state" where
  "tracked_link = fst (tick fs_link [''/d/s''] (New [''/d/s'']))"

definition tracked_plain :: "string \<rightharpoonup> state" where
  "tracked_plain = fst (tick fs_plain [''/d/s''] (New [''/d/s'']))"

definition state_link :: state where
  "state_link = \<lparr>path = ''/d/s'', info = Some link_s, target = ''/d/a'', targetInfo = Some file_a\<rparr>"

definition state_plain :: state where
  "state_plain = \<lparr>path = ''/d/s'', info = Some file_a, target = [], targetInfo = None\<rparr>"

text \<open>The entry of the symlink once its target is known to be missing.\<close>

definition state_dangling :: state where
  "state_dangling = \<lparr>path = ''/d/s'', info = Some link_s, target = ''/d/a'', targetInfo = None\<rparr>"

text \<open>The operations sent for path \<open>p\<close> over a run, in order.\<close>

fun path_events :: "string \<Rightarrow> (filesys \<times> sent list) list \<Rightarrow> Op list" where
  "path_events p [] = []"
| "path_events p ((fs, outs) # rest) = events_for p outs @ path_events p rest"

text \<open>Three cycles of a watcher of \<^verbatim>\<open>/d/s\<close>: the symlink with its target, then the target
  deleted, then the symlink deleted too.\<close>

definition unlink_cycles :: "(filesys \<times> string list) list" where
  "unlink_cycles = [(fs_link, [''/d/s'']), (fs_dangling, [''/d/s'']), (fs_empty, [''/d/s''])]"

text \<open>What the discipline needs of the stored entry.\<close>

definition remove_inv :: "bool \<Rightarrow> bool \<Rightarrow> state \<Rightarrow> bool" where
  "remove_inv armed linked s =
     ((if armed then targetInfo s = None else True) \<and>
      (if armed \<and> \<not> linked then info s = None else True))"

section \<open>Properties\<close>

subsection \<open>One iteration writes and reports only its own path\<close>

lemma events_for_append: "events_for p (xs @ ys) = events_for p xs @ events_for p ys"
  by (induction p xs rule: events_for.induct) auto

lemma events_for_other:
  "(\<And>e. Emit e \<in> set xs \<Longrightarrow> Name e \<noteq> p) \<Longrightarrow> events_for p xs = []"
  by (induction p xs rule: events_for.induct) auto

lemma tick_entry_path:
  "fst (tick_entry fs s) = Some s' \<Longrightarrow> path s' = path s"
  by (auto simp: tick_entry_def Let_def split: stat_result.splits if_splits sum.splits)

lemma tick_Cons_Some:
  "m k = Some old \<Longrightarrow>
   tick fs (k # ks) m =
     (fst (tick fs ks (write_back m old (fst (tick_entry fs old)))),
      snd (tick_entry fs old) @ snd (tick fs ks (write_back m old (fst (tick_entry fs old)))))"
  by (simp add: write_back_def split: prod.splits)

lemma keyed_write_back: "keyed m \<Longrightarrow> keyed (write_back m old (fst (tick_entry fs old)))"
proof (cases "fst (tick_entry fs old)")
  case None
  assume "keyed m"
  then show ?thesis using None by (simp add: write_back_def)
next
  case (Some s')
  assume km: "keyed m"
  have "path s' = path old" using Some by (rule tick_entry_path)
  then show ?thesis using km Some by (simp add: write_back_def keyed_def)
qed

lemma tick_keyed: "keyed m \<Longrightarrow> keyed (fst (tick fs ks m))"
proof (induction ks arbitrary: m)
  case Nil
  then show ?case by simp
next
  case (Cons k ks)
  show ?case
  proof (cases "m k")
    case None
    then show ?thesis using Cons by simp
  next
    case (Some old)
    have "keyed (write_back m old (fst (tick_entry fs old)))"
      using Cons.prems by (rule keyed_write_back)
    from Cons.IH[OF this] show ?thesis
      by (simp only: tick_Cons_Some[of m k old, OF Some] fst_conv)
  qed
qed


lemma target_error_names: "Emit e \<in> set (target_error s r) \<Longrightarrow> Name e = path s"
  by (cases r) (auto simp: target_error_def split: if_splits)

lemma target_change_names: "Emit e \<in> set (target_change s t r) \<Longrightarrow> Name e = path s"
  by (cases r; cases "targetInfo s") (auto simp: target_change_def split: if_splits)

lemma plain_change_names: "Emit e \<in> set (plain_change s i) \<Longrightarrow> Name e = path s"
  by (cases "info s") (auto simp: plain_change_def split: if_splits)

lemma tick_entry_names:
  "Emit e \<in> set (snd (tick_entry fs s)) \<Longrightarrow> Name e = path s"
  by (auto simp: tick_entry_def Let_def
      dest: target_error_names target_change_names plain_change_names
      split: stat_result.splits if_splits sum.splits)

lemma tick_entry_events_other:
  "path s \<noteq> p \<Longrightarrow> events_for p (snd (tick_entry fs s)) = []"
  by (rule events_for_other) (auto dest: tick_entry_names)

lemma step_state_path: "path (step_state fs s) = path s"
  by (auto simp: step_state_def dest: tick_entry_path split: option.splits)

lemma write_back_other:
  "path old \<noteq> p \<Longrightarrow> write_back m old upd p = m p"
  by (simp add: write_back_def split: option.splits)

lemma write_back_same:
  "m (path old) = Some old \<Longrightarrow>
     write_back m old (fst (tick_entry fs old)) (path old) = Some (step_state fs old)"
  by (simp add: write_back_def step_state_def split: option.splits)

lemma dom_write_back:
  "m (path old) = Some old \<Longrightarrow> dom (write_back m old upd) = dom m"
  by (auto simp: write_back_def split: option.splits)

lemma tick_skip:
  "keyed m \<Longrightarrow> p \<notin> set ks \<Longrightarrow>
     fst (tick fs ks m) p = m p \<and> events_for p (snd (tick fs ks m)) = []"
proof (induction ks arbitrary: m)
  case Nil
  then show ?case by simp
next
  case (Cons k ks)
  show ?case
  proof (cases "m k")
    case None
    then show ?thesis using Cons by simp
  next
    case (Some old)
    let ?m' = "write_back m old (fst (tick_entry fs old))"
    have pk: "path old = k" using Cons.prems(1) Some by (simp add: keyed_def)
    have k': "keyed ?m'" using Cons.prems(1) by (rule keyed_write_back)
    have np: "p \<noteq> k" "p \<notin> set ks" using Cons.prems(2) by auto
    have same: "?m' p = m p" using np pk by (simp add: write_back_other)
    have noev: "events_for p (snd (tick_entry fs old)) = []"
      using np pk by (simp add: tick_entry_events_other)
    from Cons.IH[OF k' np(2)] show ?thesis
      by (simp add: tick_Cons_Some[of m k old, OF Some] events_for_append same noev del: tick.simps)
  qed
qed

lemma tick_at:
  "keyed m \<Longrightarrow> distinct ks \<Longrightarrow> p \<in> set ks \<Longrightarrow> m p = Some s \<Longrightarrow>
     fst (tick fs ks m) p = Some (step_state fs s) \<and>
     events_for p (snd (tick fs ks m)) = events_for p (snd (tick_entry fs s)) \<and>
     set (snd (tick_entry fs s)) \<subseteq> set (snd (tick fs ks m))"
proof (induction ks arbitrary: m)
  case Nil
  then show ?case by simp
next
  case (Cons k ks)
  show ?case
  proof (cases "m k")
    case None
    then have "p \<noteq> k" using Cons.prems by auto
    then show ?thesis using Cons None by simp
  next
    case (Some old)
    let ?m' = "write_back m old (fst (tick_entry fs old))"
    have pk: "path old = k" using Cons.prems(1) Some by (simp add: keyed_def)
    have k': "keyed ?m'" using Cons.prems(1) by (rule keyed_write_back)
    note unf = tick_Cons_Some[of m k old, OF Some]
    show ?thesis
    proof (cases "p = k")
      case True
      then have old: "old = s" using Some Cons.prems by simp
      have nin: "p \<notin> set ks" using True Cons.prems(2) by simp
      have "m (path old) = Some old" using pk Some by simp
      then have mp: "?m' p = Some (step_state fs s)"
        using write_back_same[of m old fs] pk True old by simp
      from tick_skip[OF k' nin, of fs] show ?thesis
        using mp old by (simp add: unf events_for_append del: tick.simps)
    next
      case False
      then have pin: "p \<in> set ks" using Cons.prems by simp
      have dk: "distinct ks" using Cons.prems(2) by simp
      have same: "?m' p = Some s"
        using False pk Cons.prems(4) by (simp add: write_back_other)
      have noev: "events_for p (snd (tick_entry fs old)) = []"
        using False pk by (simp add: tick_entry_events_other)
      from Cons.IH[OF k' dk pin same] show ?thesis
        by (auto simp add: unf noev events_for_append simp del: tick.simps)
    qed
  qed
qed

lemma tick_dom: "keyed m \<Longrightarrow> dom (fst (tick fs ks m)) = dom m"
proof (induction ks arbitrary: m)
  case Nil
  then show ?case by simp
next
  case (Cons k ks)
  show ?case
  proof (cases "m k")
    case None
    then show ?thesis using Cons by simp
  next
    case (Some old)
    let ?m' = "write_back m old (fst (tick_entry fs old))"
    have pk: "path old = k" using Cons.prems(1) Some by (simp add: keyed_def)
    have k': "keyed ?m'" using Cons.prems(1) by (rule keyed_write_back)
    have "dom ?m' = dom m" using pk Some by (simp add: dom_write_back)
    with Cons.IH[OF k'] show ?thesis
      by (simp add: tick_Cons_Some[of m k old, OF Some] del: tick.simps)
  qed
qed


lemma fold_track:
  "fold (\<lambda>f tracked. tracked(f \<mapsto> empty_state f)) fs m k =
     (if k \<in> set fs then Some (empty_state k) else m k)"
  by (induction fs arbitrary: m) auto

lemma New_lookup: "New fs k = (if k \<in> set fs then Some (empty_state k) else None)"
  by (simp add: New_def fold_track)

lemma dom_New: "dom (New fs) = set fs"
  by (auto simp: New_lookup split: if_splits)

lemma keyed_New: "keyed (New fs)"
  by (auto simp: keyed_def New_lookup empty_state_def split: if_splits)

lemma entry_ok_empty: "entry_ok (empty_state f)"
  by (simp add: entry_ok_def empty_state_def)

lemma entry_ok_step: "entry_ok s \<Longrightarrow> entry_ok (step_state fs s)"
  by (auto simp: step_state_def tick_entry_def Let_def entry_ok_def
      split: stat_result.splits sum.splits if_splits)

lemma tick_lookup:
  assumes "keyed m" "distinct ks" "set ks = dom m"
  shows "fst (tick fs ks m) k = map_option (step_state fs) (m k)"
proof (cases "m k")
  case None
  then have "k \<notin> dom (fst (tick fs ks m))" using tick_dom[OF assms(1), of fs ks] by auto
  then show ?thesis using None by auto
next
  case (Some s)
  then have "k \<in> set ks" using assms(3) by auto
  from tick_at[OF assms(1,2) this Some, of fs] show ?thesis using Some by simp
qed

lemma tick_events:
  assumes "keyed m" "distinct ks" "set ks = dom m"
  shows "events_for k (snd (tick fs ks m)) =
           (case m k of None \<Rightarrow> [] | Some s \<Rightarrow> events_for k (snd (tick_entry fs s)))"
proof (cases "m k")
  case None
  then have "k \<notin> set ks" using assms(3) by auto
  from tick_skip[OF assms(1) this, of fs] show ?thesis using None by simp
next
  case (Some s)
  then have "k \<in> set ks" using assms(3) by auto
  from tick_at[OF assms(1,2) this Some, of fs] show ?thesis using Some by simp
qed

lemma reachable_inv:
  "reachable m \<Longrightarrow> keyed m \<and> (\<forall>k s. m k = Some s \<longrightarrow> entry_ok s)"
proof (induction rule: reachable.induct)
  case (reach_New trackedFiles)
  have "entry_ok s" if "New trackedFiles k = Some s" for k s
    using that by (auto simp: New_lookup entry_ok_empty split: if_splits)
  then show ?case using keyed_New by blast
next
  case (reach_tick tracked ks fs)
  then have km: "keyed tracked" and ok: "\<And>k s. tracked k = Some s \<Longrightarrow> entry_ok s"
    by auto
  have "keyed (fst (tick fs ks tracked))" using km by (rule tick_keyed)
  moreover have "entry_ok s" if "fst (tick fs ks tracked) k = Some s" for k s
  proof -
    from that tick_lookup[OF km reach_tick(2,3), of fs k]
    obtain s0 where "tracked k = Some s0" "s = step_state fs s0" by auto
    then show ?thesis using ok entry_ok_step by auto
  qed
  ultimately show ?case by blast
qed

subsection \<open>The branches of one iteration\<close>

lemma tick_entry_absent:
  "Lstat fs (path s) = StatErr err \<Longrightarrow> IsNotExist err \<Longrightarrow>
     tick_entry fs s =
       (if info s \<noteq> None
        then (Some (empty_state (path s)), [Emit \<lparr>Name = path s, Op = Remove\<rparr>])
        else (None, []))"
  by (simp add: tick_entry_def empty_state_def)

lemma tick_entry_lstat_error:
  "Lstat fs (path s) = StatErr err \<Longrightarrow> \<not> IsNotExist err \<Longrightarrow>
     tick_entry fs s = (None, [Fail err])"
  by (simp add: tick_entry_def)

lemma tick_entry_unreadable:
  "Lstat fs (path s) = StatOk i \<Longrightarrow> ModeSymlink i \<Longrightarrow> Readlink fs (path s) = Inl err \<Longrightarrow>
     tick_entry fs s = (None, [])"
  by (simp add: tick_entry_def)

lemma tick_entry_symlink:
  "Lstat fs (path s) = StatOk i \<Longrightarrow> ModeSymlink i \<Longrightarrow> Readlink fs (path s) = Inr t0 \<Longrightarrow>
     tick_entry fs s =
       (Some \<lparr>path = path s, info = Some i, target = resolve_target fs (path s) t0,
              targetInfo = stat_info (Stat fs (resolve_target fs (path s) t0))\<rparr>,
        target_error s (Stat fs (resolve_target fs (path s) t0)) @
        target_change s (resolve_target fs (path s) t0) (Stat fs (resolve_target fs (path s) t0)))"
  by (simp add: tick_entry_def Let_def)

lemma tick_entry_plain:
  "Lstat fs (path s) = StatOk i \<Longrightarrow> \<not> ModeSymlink i \<Longrightarrow>
     tick_entry fs s =
       (Some \<lparr>path = path s, info = Some i, target = [], targetInfo = None\<rparr>, plain_change s i)"
  by (simp add: tick_entry_def)

lemma reachable_keyed: "reachable m \<Longrightarrow> keyed m"
  by (simp add: reachable_inv)

lemma reachable_path: "reachable m \<Longrightarrow> m p = Some s \<Longrightarrow> path s = p"
  using reachable_inv[of m] by (simp add: keyed_def)

lemma reachable_tick_at:
  assumes "reachable m" "distinct ks" "set ks = dom m" "m p = Some s"
  shows "fst (tick fs ks m) p = Some (step_state fs s)"
    and "events_for p (snd (tick fs ks m)) = events_for p (snd (tick_entry fs s))"
    and "set (snd (tick_entry fs s)) \<subseteq> set (snd (tick fs ks m))"
proof -
  have k: "keyed m" using assms(1) by (rule reachable_keyed)
  have "p \<in> set ks" using assms(3,4) by auto
  from tick_at[OF k assms(2) this assms(4), of fs]
  show "fst (tick fs ks m) p = Some (step_state fs s)"
    and "events_for p (snd (tick fs ks m)) = events_for p (snd (tick_entry fs s))"
    and "set (snd (tick_entry fs s)) \<subseteq> set (snd (tick fs ks m))"
    by simp_all
qed

subsection \<open>The example maps\<close>

lemma New_s: "New [''/d/s''] = [''/d/s'' \<mapsto> empty_state ''/d/s'']"
  by (simp add: New_def)

lemma resolve_link: "resolve_target fs_link ''/d/s'' ''a'' = ''/d/a''"
  by (simp add: resolve_target_def fs_link_def)

lemma tick_entry_link_first:
  "tick_entry fs_link (empty_state ''/d/s'') =
     (Some state_link, [Emit \<lparr>Name = ''/d/s'', Op = Create OR Write\<rparr>])"
  by (simp add: tick_entry_def empty_state_def fs_link_def resolve_target_def Let_def
      link_s_def file_a_def state_link_def target_error_def target_change_def)

lemma tick_entry_plain_first:
  "tick_entry fs_plain (empty_state ''/d/s'') =
     (Some state_plain, [Emit \<lparr>Name = ''/d/s'', Op = Create OR Write\<rparr>])"
  by (simp add: tick_entry_def empty_state_def fs_plain_def fs_empty_def fs_link_def
      file_a_def state_plain_def plain_change_def)

lemma empty_state_path: "path (empty_state f) = f"
  by (simp add: empty_state_def)

lemma tracked_link_eq: "tracked_link = [''/d/s'' \<mapsto> state_link]"
  by (simp add: tracked_link_def New_s tick_entry_link_first write_back_def empty_state_path)

lemma tracked_plain_eq: "tracked_plain = [''/d/s'' \<mapsto> state_plain]"
  by (simp add: tracked_plain_def New_s tick_entry_plain_first write_back_def empty_state_path)

lemma reachable_tracked_link: "reachable tracked_link"
  unfolding tracked_link_def by (rule reach_tick[OF reach_New]) (simp_all add: dom_New)

lemma reachable_tracked_plain: "reachable tracked_plain"
  unfolding tracked_plain_def by (rule reach_tick[OF reach_New]) (simp_all add: dom_New)

section \<open>The claims\<close>

text \<open>
  Claim C8. In every map reachable from \<^verbatim>\<open>New\<close> by any number of cycles, every entry with
  nil \<open>info\<close> has an empty \<open>target\<close> and a nil \<open>targetInfo\<close>, and an entry has a
  \<open>targetInfo\<close> only when its \<open>info\<close> is that of a symlink.
\<close>

theorem reachable_entry_consistent:
  assumes "reachable tracked" and "tracked k = Some s"
  shows "(info s = None \<longrightarrow> target s = [] \<and> targetInfo s = None) \<and>
         (targetInfo s \<noteq> None \<longrightarrow> (\<exists>i. info s = Some i \<and> ModeSymlink i))"
proof -
  have "entry_ok s" using reachable_inv[OF assms(1)] assms(2) by blast
  then show ?thesis by (simp add: entry_ok_def)
qed

theorem reachable_entry_consistent_witness:
  "reachable tracked_link \<and> tracked_link ''/d/s'' = Some state_link \<and>
   targetInfo state_link \<noteq> None \<and> (\<exists>i. info state_link = Some i \<and> ModeSymlink i)"
proof -
  have l: "tracked_link ''/d/s'' = Some state_link" by (simp add: tracked_link_eq)
  have t: "targetInfo state_link \<noteq> None" by (simp add: state_link_def)
  from reachable_entry_consistent[OF reachable_tracked_link l] t
  show ?thesis using l reachable_tracked_link by simp
qed

text \<open>
  Claim C5. When the lstat of a tracked path fails with an error that is not a not-exist
  error, the iteration sends exactly that error, the cycle sends no event for the path,
  and the entry of the path is the one stored before the cycle.
\<close>

theorem lstat_error_retries:
  assumes "reachable tracked" and "distinct ks" and "set ks = dom tracked"
    and "tracked p = Some s"
    and "Lstat fs p = StatErr err" and "\<not> IsNotExist err"
  shows "tick_entry fs s = (None, [Fail err]) \<and>
         Fail err \<in> set (snd (tick fs ks tracked)) \<and>
         events_for p (snd (tick fs ks tracked)) = [] \<and>
         fst (tick fs ks tracked) p = tracked p"
proof -
  have ps: "path s = p" using assms(1,4) by (rule reachable_path)
  have te: "tick_entry fs s = (None, [Fail err])"
    using assms(5,6) ps by (simp add: tick_entry_lstat_error)
  note at = reachable_tick_at[OF assms(1-4), of fs]
  show ?thesis using te at assms(4) by (simp add: step_state_def)
qed

theorem lstat_error_retries_witness:
  "tick_entry fs_denied state_link = (None, [Fail (PathError ''lstat'' ''/d/s'' (Errno EACCES))]) \<and>
   Fail (PathError ''lstat'' ''/d/s'' (Errno EACCES)) \<in> set (snd (tick fs_denied [''/d/s''] tracked_link)) \<and>
   events_for ''/d/s'' (snd (tick fs_denied [''/d/s''] tracked_link)) = [] \<and>
   fst (tick fs_denied [''/d/s''] tracked_link) ''/d/s'' = Some state_link"
proof -
  have d: "distinct [''/d/s'']" "set [''/d/s''] = dom tracked_link"
    by (simp_all add: tracked_link_eq)
  have l: "tracked_link ''/d/s'' = Some state_link" by (simp add: tracked_link_eq)
  have e: "Lstat fs_denied ''/d/s'' = StatErr (PathError ''lstat'' ''/d/s'' (Errno EACCES))"
    by (simp add: fs_denied_def fs_link_def)
  have n: "\<not> IsNotExist (PathError ''lstat'' ''/d/s'' (Errno EACCES))"
    by (simp add: IsNotExist_def ENOENT_def EACCES_def)
  from lstat_error_retries[OF reachable_tracked_link d l e n]
  show ?thesis using l by (simp del: tick.simps)
qed

text \<open>
  Claim C7. When a tracked path is a symlink and reading the link fails, the iteration
  sends nothing (no event, no error), and the entry of the path is the one stored before
  the cycle.
\<close>

theorem readlink_failure_skipped:
  assumes "reachable tracked" and "distinct ks" and "set ks = dom tracked"
    and "tracked p = Some s"
    and "Lstat fs p = StatOk i" and "ModeSymlink i" and "Readlink fs p = Inl err"
  shows "tick_entry fs s = (None, []) \<and>
         events_for p (snd (tick fs ks tracked)) = [] \<and>
         fst (tick fs ks tracked) p = tracked p"
proof -
  have ps: "path s = p" using assms(1,4) by (rule reachable_path)
  have te: "tick_entry fs s = (None, [])"
    using assms(5-7) ps by (simp add: tick_entry_unreadable)
  note at = reachable_tick_at[OF assms(1-4), of fs]
  show ?thesis using te at assms(4) by (simp add: step_state_def)
qed

theorem readlink_failure_skipped_witness:
  "tick_entry fs_unreadable state_link = (None, []) \<and>
   events_for ''/d/s'' (snd (tick fs_unreadable [''/d/s''] tracked_link)) = [] \<and>
   fst (tick fs_unreadable [''/d/s''] tracked_link) ''/d/s'' = Some state_link"
proof -
  have d: "distinct [''/d/s'']" "set [''/d/s''] = dom tracked_link"
    by (simp_all add: tracked_link_eq)
  have l: "tracked_link ''/d/s'' = Some state_link" by (simp add: tracked_link_eq)
  have a: "Lstat fs_unreadable ''/d/s'' = StatOk link_s"
    by (simp add: fs_unreadable_def fs_link_def)
  have b: "ModeSymlink link_s" by (simp add: link_s_def)
  have c: "Readlink fs_unreadable ''/d/s'' = Inl (PathError ''readlink'' ''/d/s'' (Errno EACCES))"
    by (simp add: fs_unreadable_def)
  from readlink_failure_skipped[OF reachable_tracked_link d l a b c]
  show ?thesis using l by (simp del: tick.simps)
qed

lemma target_error_StatErr:
  "target_error s (StatErr err) =
     (if AsPathError err
      then (if targetInfo s \<noteq> None then [Emit \<lparr>Name = path s, Op = Remove\<rparr>] else [])
      else [Fail err])"
  by (simp add: target_error_def)

lemma target_change_StatErr: "target_change s t (StatErr err) = []"
  by (simp add: target_change_def split: option.splits)

lemma target_error_StatOk: "target_error s (StatOk ti) = []"
  by (simp add: target_error_def)

lemma target_change_new:
  "targetInfo s = None \<Longrightarrow>
     target_change s t (StatOk ti) =
       [Emit \<lparr>Name = path s, Op = (if Size ti > 0 then Create OR Write else Create)\<rparr>]"
  by (simp add: target_change_def)

lemma target_change_known:
  "targetInfo s = Some oti \<Longrightarrow>
     target_change s t (StatOk ti) =
       (if target s \<noteq> t \<or> Size oti \<noteq> Size ti \<or> ModTime oti \<noteq> ModTime ti
        then [Emit \<lparr>Name = path s, Op = Write\<rparr>] else [])"
  by (simp add: target_change_def)

lemma Has_values:
  "Has Create Create" "\<not> Has Create Write" "\<not> Has Create Remove"
  "Has (Create OR Write) Create" "Has (Create OR Write) Write" "\<not> Has (Create OR Write) Remove"
  "\<not> Has Write Create" "Has Write Write" "\<not> Has Write Remove"
  "\<not> Has Remove Create" "\<not> Has Remove Write" "Has Remove Remove"
  by (simp_all add: Has_def Create_def Write_def Remove_def)

text \<open>
  The stat of the resolved target of a symlink fails: what the iteration sends, and what
  the cycle sends for the path.
\<close>

lemma target_stat_error_outputs:
  assumes "reachable tracked" and "distinct ks" and "set ks = dom tracked"
    and "tracked p = Some s"
    and "Lstat fs p = StatOk i" and "ModeSymlink i" and "Readlink fs p = Inr t0"
    and "Stat fs (resolve_target fs p t0) = StatErr err"
  shows "snd (tick_entry fs s) =
           (if AsPathError err
            then (if targetInfo s \<noteq> None then [Emit \<lparr>Name = p, Op = Remove\<rparr>] else [])
            else [Fail err]) \<and>
         (\<not> AsPathError err \<longrightarrow> Fail err \<in> set (snd (tick fs ks tracked))) \<and>
         events_for p (snd (tick fs ks tracked)) =
           (if AsPathError err \<and> targetInfo s \<noteq> None then [Remove] else [])"
proof -
  have ps: "path s = p" using assms(1,4) by (rule reachable_path)
  have te: "snd (tick_entry fs s) =
           (if AsPathError err
            then (if targetInfo s \<noteq> None then [Emit \<lparr>Name = p, Op = Remove\<rparr>] else [])
            else [Fail err])"
    using tick_entry_symlink[of fs s i t0] assms(5-8) ps
    by (simp add: target_error_StatErr target_change_StatErr)
  note at = reachable_tick_at[OF assms(1-4), of fs]
  have ev: "events_for p (snd (tick fs ks tracked)) =
           (if AsPathError err \<and> targetInfo s \<noteq> None then [Remove] else [])"
    using at(2) te by simp
  have "Fail err \<in> set (snd (tick fs ks tracked))" if "\<not> AsPathError err"
    using at(3) te that by simp
  then show ?thesis using te ev by blast
qed

lemma tick_single:
  "m k = Some s \<Longrightarrow>
     tick fs [k] m = (write_back m s (fst (tick_entry fs s)), snd (tick_entry fs s))"
  by (simp add: split_def)

text \<open>
  Claim C1 asks that a failure of the target stat other than "target does not exist" is
  sent on \<^verbatim>\<open>Errors\<close> and is not taken for the removal of the target. The iteration tests
  the error with \<^verbatim>\<open>errors.As(err, &pathError)\<close>, and every error of \<^verbatim>\<open>os.Stat\<close> is a
  \<^verbatim>\<open>*fs.PathError\<close>: when the stat of the known target of \<^verbatim>\<open>/d/s\<close> is denied (\<^verbatim>\<open>EACCES\<close>, no
  not-exist error), the cycle sends \<^verbatim>\<open>Remove\<close> for the path and no error.
\<close>

theorem target_stat_denied_sends_remove:
  "Stat fs_target_denied (resolve_target fs_target_denied ''/d/s'' ''a'') =
     StatErr (PathError ''stat'' ''/d/a'' (Errno EACCES)) \<and>
   IsNotExist (PathError ''stat'' ''/d/a'' (Errno EACCES)) = False \<and>
   snd (tick fs_target_denied [''/d/s''] tracked_link) = [Emit \<lparr>Name = ''/d/s'', Op = Remove\<rparr>]"
proof -
  have d: "distinct [''/d/s'']" "set [''/d/s''] = dom tracked_link"
    by (simp_all add: tracked_link_eq)
  have l: "tracked_link ''/d/s'' = Some state_link" by (simp add: tracked_link_eq)
  have a: "Lstat fs_target_denied ''/d/s'' = StatOk link_s"
    by (simp add: fs_target_denied_def fs_link_def)
  have b: "ModeSymlink link_s" by (simp add: link_s_def)
  have c: "Readlink fs_target_denied ''/d/s'' = Inr ''a''"
    by (simp add: fs_target_denied_def fs_link_def)
  have e: "Stat fs_target_denied (resolve_target fs_target_denied ''/d/s'' ''a'') =
             StatErr (PathError ''stat'' ''/d/a'' (Errno EACCES))"
    by (simp add: fs_target_denied_def resolve_target_def fs_link_def)
  have n: "IsNotExist (PathError ''stat'' ''/d/a'' (Errno EACCES)) = False"
    by (simp add: IsNotExist_def ENOENT_def EACCES_def)
  have t: "targetInfo state_link \<noteq> None" by (simp add: state_link_def)
  have "snd (tick_entry fs_target_denied state_link) = [Emit \<lparr>Name = ''/d/s'', Op = Remove\<rparr>]"
    using target_stat_error_outputs[OF reachable_tracked_link d l a b c e] t by simp
  then have "snd (tick fs_target_denied [''/d/s''] tracked_link) =
               [Emit \<lparr>Name = ''/d/s'', Op = Remove\<rparr>]"
    using tick_single[of tracked_link "''/d/s''" state_link fs_target_denied, OF l]
    by (simp del: tick.simps)
  then show ?thesis using e n by blast
qed

text \<open>
  Claim C4. For a tracked symlink with a stored target info whose resolved target is
  stat-ed successfully, the cycle sends the single event \<^verbatim>\<open>Write\<close> for the path if the
  resolved target path, the size or the modification time of the target differs from the
  stored one, and no event otherwise.
\<close>

theorem symlink_target_write:
  assumes "reachable tracked" and "distinct ks" and "set ks = dom tracked"
    and "tracked p = Some s"
    and "Lstat fs p = StatOk i" and "ModeSymlink i" and "Readlink fs p = Inr t0"
    and "Stat fs (resolve_target fs p t0) = StatOk ti"
    and "targetInfo s = Some oti"
  shows "snd (tick_entry fs s) =
           (if target s \<noteq> resolve_target fs p t0 \<or> Size oti \<noteq> Size ti \<or> ModTime oti \<noteq> ModTime ti
            then [Emit \<lparr>Name = p, Op = Write\<rparr>] else []) \<and>
         events_for p (snd (tick fs ks tracked)) =
           (if target s \<noteq> resolve_target fs p t0 \<or> Size oti \<noteq> Size ti \<or> ModTime oti \<noteq> ModTime ti
            then [Write] else [])"
proof -
  have ps: "path s = p" using assms(1,4) by (rule reachable_path)
  have te: "snd (tick_entry fs s) =
           (if target s \<noteq> resolve_target fs p t0 \<or> Size oti \<noteq> Size ti \<or> ModTime oti \<noteq> ModTime ti
            then [Emit \<lparr>Name = p, Op = Write\<rparr>] else [])"
    using tick_entry_symlink[of fs s i t0] assms(5-8) ps
    by (simp add: target_error_StatOk target_change_known[OF assms(9)])
  note at = reachable_tick_at[OF assms(1-4), of fs]
  show ?thesis using at(2) te by simp
qed

theorem symlink_target_write_witness:
  "snd (tick_entry fs_grown state_link) = [Emit \<lparr>Name = ''/d/s'', Op = Write\<rparr>] \<and>
   events_for ''/d/s'' (snd (tick fs_grown [''/d/s''] tracked_link)) = [Write]"
proof -
  have d: "distinct [''/d/s'']" "set [''/d/s''] = dom tracked_link"
    by (simp_all add: tracked_link_eq)
  have l: "tracked_link ''/d/s'' = Some state_link" by (simp add: tracked_link_eq)
  have a: "Lstat fs_grown ''/d/s'' = StatOk link_s" by (simp add: fs_grown_def fs_link_def)
  have b: "ModeSymlink link_s" by (simp add: link_s_def)
  have c: "Readlink fs_grown ''/d/s'' = Inr ''a''" by (simp add: fs_grown_def fs_link_def)
  have e: "Stat fs_grown (resolve_target fs_grown ''/d/s'' ''a'') =
             StatOk \<lparr>ModeSymlink = False, Size = 6, ModTime = 30\<rparr>"
    by (simp add: fs_grown_def fs_link_def resolve_target_def)
  have f: "targetInfo state_link = Some file_a" by (simp add: state_link_def)
  have g: "Size file_a \<noteq> 6" by (simp add: file_a_def)
  from symlink_target_write[OF reachable_tracked_link d l a b c e f] g
  show ?thesis by (simp del: tick.simps)
qed

lemma plain_change_new:
  "info s = None \<Longrightarrow>
     plain_change s i =
       [Emit \<lparr>Name = path s, Op = (if Size i > 0 then Create OR Write else Create)\<rparr>]"
  by (simp add: plain_change_def)

lemma create_op_bits:
  "Has (if 0 < sz then Create OR Write else Create) Create \<and>
   (Has (if 0 < sz then Create OR Write else Create) Write \<longleftrightarrow> (0::int) < sz) \<and>
   \<not> Has (if 0 < sz then Create OR Write else Create) Remove"
  by (simp add: Has_values)

text \<open>
  Claim C6. When a tracked path that is no symlink is seen to exist and no own info was
  stored, or a tracked symlink without stored target info resolves to an existing target,
  the cycle sends exactly one event for the path: \<^verbatim>\<open>Create\<close>, with \<^verbatim>\<open>Write\<close> or-ed in exactly
  when the observed size \<open>sz\<close> is greater than zero.
\<close>

theorem appearance_creates:
  assumes "reachable tracked" and "distinct ks" and "set ks = dom tracked"
    and "tracked p = Some s"
    and "Lstat fs p = StatOk i"
    and "(\<not> ModeSymlink i \<and> info s = None \<and> sz = Size i) \<or>
         (ModeSymlink i \<and> Readlink fs p = Inr t0 \<and>
          Stat fs (resolve_target fs p t0) = StatOk ti \<and> targetInfo s = None \<and> sz = Size ti)"
  shows "\<exists>x. events_for p (snd (tick fs ks tracked)) = [x] \<and>
             x = (if 0 < sz then Create OR Write else Create) \<and>
             Has x Create \<and> (Has x Write \<longleftrightarrow> 0 < sz) \<and> \<not> Has x Remove"
proof -
  have ps: "path s = p" using assms(1,4) by (rule reachable_path)
  note at = reachable_tick_at[OF assms(1-4), of fs]
  have te: "snd (tick_entry fs s) =
              [Emit \<lparr>Name = p, Op = (if 0 < sz then Create OR Write else Create)\<rparr>]"
    using assms(6)
  proof
    assume a: "\<not> ModeSymlink i \<and> info s = None \<and> sz = Size i"
    then show ?thesis
      using tick_entry_plain[of fs s i] assms(5) ps by (simp add: plain_change_new)
  next
    assume a: "ModeSymlink i \<and> Readlink fs p = Inr t0 \<and>
          Stat fs (resolve_target fs p t0) = StatOk ti \<and> targetInfo s = None \<and> sz = Size ti"
    then show ?thesis
      using tick_entry_symlink[of fs s i t0] assms(5) ps
      by (simp add: target_error_StatOk target_change_new)
  qed
  have "events_for p (snd (tick fs ks tracked)) = [if 0 < sz then Create OR Write else Create]"
    using at(2) te by simp
  then show ?thesis using create_op_bits[of sz] by blast
qed

theorem appearance_creates_witness:
  "events_for ''/d/s'' (snd (tick fs_plain [''/d/s''] (New [''/d/s'']))) = [Create OR Write] \<and>
   events_for ''/d/s'' (snd (tick fs_link [''/d/s''] (New [''/d/s'']))) = [Create OR Write] \<and>
   events_for ''/d/s'' (snd (tick fs_empty [''/d/s''] (New [''/d/s'']))) = []"
proof -
  have d: "distinct [''/d/s'']" "set [''/d/s''] = dom (New [''/d/s''])"
    by (simp_all add: dom_New)
  have l: "New [''/d/s''] ''/d/s'' = Some (empty_state ''/d/s'')" by (simp add: New_lookup)
  have a1: "Lstat fs_plain ''/d/s'' = StatOk file_a"
    by (simp add: fs_plain_def fs_empty_def fs_link_def)
  have h1: "(\<not> ModeSymlink file_a \<and> info (empty_state ''/d/s'') = None \<and> 5 = Size file_a) \<or>
         (ModeSymlink file_a \<and> Readlink fs_plain ''/d/s'' = Inr [] \<and>
          Stat fs_plain (resolve_target fs_plain ''/d/s'' []) = StatOk file_a \<and>
          targetInfo (empty_state ''/d/s'') = None \<and> 5 = Size file_a)"
    by (simp add: file_a_def empty_state_def)
  have a2: "Lstat fs_link ''/d/s'' = StatOk link_s" by (simp add: fs_link_def)
  have h2: "(\<not> ModeSymlink link_s \<and> info (empty_state ''/d/s'') = None \<and> 5 = Size link_s) \<or>
         (ModeSymlink link_s \<and> Readlink fs_link ''/d/s'' = Inr ''a'' \<and>
          Stat fs_link (resolve_target fs_link ''/d/s'' ''a'') = StatOk file_a \<and>
          targetInfo (empty_state ''/d/s'') = None \<and> 5 = Size file_a)"
    by (simp add: resolve_link) (simp add: fs_link_def link_s_def file_a_def empty_state_def)
  have e3: "events_for ''/d/s'' (snd (tick fs_empty [''/d/s''] (New [''/d/s'']))) = []"
    by (simp add: New_s tick_entry_def fs_empty_def fs_link_def no_entry_def IsNotExist_def
        empty_state_def write_back_def)
  from appearance_creates[OF reach_New d l a1 h1] appearance_creates[OF reach_New d l a2 h2] e3
  show ?thesis by (simp del: tick.simps)
qed

text \<open>
  Claim C10. When the stored entry is that of a regular file (own info, no target info)
  and the path is now a symlink to an existing target, the cycle sends exactly one event
  for the path, \<^verbatim>\<open>Create\<close> (with \<^verbatim>\<open>Write\<close> when the target size is positive), and no \<^verbatim>\<open>Remove\<close>;
  the entry then holds the symlink and its target.
\<close>

theorem file_replaced_by_symlink_creates:
  assumes "reachable tracked" and "distinct ks" and "set ks = dom tracked"
    and "tracked p = Some s"
    and "info s = Some oi" and "\<not> ModeSymlink oi" and "targetInfo s = None"
    and "Lstat fs p = StatOk i" and "ModeSymlink i" and "Readlink fs p = Inr t0"
    and "Stat fs (resolve_target fs p t0) = StatOk ti"
  shows "events_for p (snd (tick fs ks tracked)) =
           [if 0 < Size ti then Create OR Write else Create] \<and>
         fst (tick fs ks tracked) p =
           Some \<lparr>path = p, info = Some i, target = resolve_target fs p t0, targetInfo = Some ti\<rparr>"
proof -
  have ps: "path s = p" using assms(1,4) by (rule reachable_path)
  note at = reachable_tick_at[OF assms(1-4), of fs]
  have te: "tick_entry fs s =
              (Some \<lparr>path = p, info = Some i, target = resolve_target fs p t0, targetInfo = Some ti\<rparr>,
               [Emit \<lparr>Name = p, Op = (if 0 < Size ti then Create OR Write else Create)\<rparr>])"
    using tick_entry_symlink[of fs s i t0] assms(7-11) ps
    by (simp add: target_error_StatOk target_change_new)
  show ?thesis using at(1,2) te by (simp add: step_state_def)
qed

theorem file_replaced_by_symlink_creates_witness:
  "events_for ''/d/s'' (snd (tick fs_link [''/d/s''] tracked_plain)) = [Create OR Write] \<and>
   fst (tick fs_link [''/d/s''] tracked_plain) ''/d/s'' = Some state_link"
proof -
  have d: "distinct [''/d/s'']" "set [''/d/s''] = dom tracked_plain"
    by (simp_all add: tracked_plain_eq)
  have l: "tracked_plain ''/d/s'' = Some state_plain" by (simp add: tracked_plain_eq)
  have o: "info state_plain = Some file_a" "\<not> ModeSymlink file_a" "targetInfo state_plain = None"
    by (simp_all add: state_plain_def file_a_def)
  have a: "Lstat fs_link ''/d/s'' = StatOk link_s" by (simp add: fs_link_def)
  have b: "ModeSymlink link_s" by (simp add: link_s_def)
  have c: "Readlink fs_link ''/d/s'' = Inr ''a''" by (simp add: fs_link_def)
  have e: "Stat fs_link (resolve_target fs_link ''/d/s'' ''a'') = StatOk file_a"
    by (simp add: resolve_link) (simp add: fs_link_def)
  have g: "0 < Size file_a" by (simp add: file_a_def)
  from file_replaced_by_symlink_creates[OF reachable_tracked_plain d l o a b c e] g
  show ?thesis by (simp add: resolve_link state_link_def del: tick.simps)
qed






lemma tick_entry_observe:
  assumes "observe fs' (path s) = observe fs (path s)"
  shows "tick_entry fs' s = tick_entry fs s"
proof -
  have l: "Lstat fs' (path s) = Lstat fs (path s)"
    using assms by (simp add: observe_def)
  show ?thesis
  proof (cases "Lstat fs (path s)")
    case (StatErr err)
    then show ?thesis using l by (simp add: tick_entry_def)
  next
    case (StatOk i)
    show ?thesis
    proof (cases "ModeSymlink i")
      case False
      then show ?thesis using l StatOk by (simp add: tick_entry_def)
    next
      case True
      have r: "(case Readlink fs' (path s) of Inl err \<Rightarrow> Inl err
                | Inr t0 \<Rightarrow> Inr (resolve_target fs' (path s) t0,
                                 Stat fs' (resolve_target fs' (path s) t0))) =
               (case Readlink fs (path s) of Inl err \<Rightarrow> Inl err
                | Inr t0 \<Rightarrow> Inr (resolve_target fs (path s) t0,
                                 Stat fs (resolve_target fs (path s) t0)))"
        using assms l StatOk True by (simp add: observe_def)
      show ?thesis
      proof (cases "Readlink fs (path s)")
        case (Inl err)
        then have "\<exists>err'. Readlink fs' (path s) = Inl err'"
          using r by (cases "Readlink fs' (path s)") auto
        then show ?thesis using l StatOk True Inl by (auto simp: tick_entry_def)
      next
        case (Inr t0)
        then obtain t0' where r': "Readlink fs' (path s) = Inr t0'"
          and t: "resolve_target fs' (path s) t0' = resolve_target fs (path s) t0"
          and st: "Stat fs' (resolve_target fs' (path s) t0') = Stat fs (resolve_target fs (path s) t0)"
          using r by (cases "Readlink fs' (path s)") auto
        have l': "Lstat fs' (path s) = StatOk i" using l StatOk by simp
        show ?thesis
          using tick_entry_symlink[OF StatOk True Inr] tick_entry_symlink[OF l' True r'] t st
          by simp
      qed
    qed
  qed
qed

lemma tick_entry_twice:
  "step_state fs (step_state fs s) = step_state fs s \<and>
   events_for p (snd (tick_entry fs (step_state fs s))) = []"
proof (cases "Lstat fs (path s)")
  case (StatErr err)
  show ?thesis
  proof (cases "IsNotExist err")
    case False
    then show ?thesis
      using tick_entry_lstat_error[OF StatErr False] by (simp add: step_state_def)
  next
    case True
    show ?thesis
    proof (cases "info s")
      case None
      then show ?thesis
        using tick_entry_absent[OF StatErr True] by (simp add: step_state_def)
    next
      case (Some oi)
      then have s1: "step_state fs s = empty_state (path s)"
        using tick_entry_absent[OF StatErr True] by (simp add: step_state_def)
      have "Lstat fs (path (empty_state (path s))) = StatErr err"
        using StatErr by (simp add: empty_state_path)
      from tick_entry_absent[OF this True] show ?thesis
        using s1 by (simp add: step_state_def empty_state_def)
    qed
  qed
next
  case (StatOk i)
  show ?thesis
  proof (cases "ModeSymlink i")
    case False
    let ?s1 = "\<lparr>path = path s, info = Some i, target = [], targetInfo = None\<rparr>"
    have s1: "step_state fs s = ?s1"
      using tick_entry_plain[OF StatOk False] by (simp add: step_state_def)
    have "Lstat fs (path ?s1) = StatOk i" using StatOk by simp
    from tick_entry_plain[OF this False] show ?thesis
      using s1 by (simp add: step_state_def plain_change_def)
  next
    case True
    show ?thesis
    proof (cases "Readlink fs (path s)")
      case (Inl err)
      then show ?thesis
        using tick_entry_unreadable[OF StatOk True Inl] by (simp add: step_state_def)
    next
      case (Inr t0)
      let ?t = "resolve_target fs (path s) t0"
      let ?s1 = "\<lparr>path = path s, info = Some i, target = ?t, targetInfo = stat_info (Stat fs ?t)\<rparr>"
      have s1: "step_state fs s = ?s1"
        using tick_entry_symlink[OF StatOk True Inr] by (simp add: step_state_def)
      have a: "Lstat fs (path ?s1) = StatOk i" "Readlink fs (path ?s1) = Inr t0"
        using StatOk Inr by simp_all
      have ev: "events_for p (target_error ?s1 (Stat fs ?t) @ target_change ?s1 ?t (Stat fs ?t)) = []"
        by (cases "Stat fs ?t") (simp_all add: target_error_def target_change_def)
      from tick_entry_symlink[OF a(1) True a(2)] show ?thesis
        using s1 ev by (simp add: step_state_def)
    qed
  qed
qed

text \<open>
  Claim C9. If a cycle observes for path \<open>p\<close> the same results of lstat, readlink and
  target stat as the cycle before it, then it leaves the entry of \<open>p\<close> as that cycle
  stored it and sends no event for \<open>p\<close>.
\<close>

theorem unchanged_cycle_is_silent:
  assumes "reachable tracked"
    and "distinct ks" and "set ks = dom tracked"
    and "distinct ks'" and "set ks' = dom tracked"
    and "observe fs' p = observe fs p"
  shows "fst (tick fs' ks' (fst (tick fs ks tracked))) p = fst (tick fs ks tracked) p \<and>
         events_for p (snd (tick fs' ks' (fst (tick fs ks tracked)))) = []"
proof -
  let ?m1 = "fst (tick fs ks tracked)"
  have k: "keyed tracked" using assms(1) by (rule reachable_keyed)
  have k1: "keyed ?m1" using k by (rule tick_keyed)
  have d1: "set ks' = dom ?m1" using assms(5) tick_dom[OF k, of fs ks] by simp
  note l1 = tick_lookup[OF k assms(2,3), of fs p]
  note l2 = tick_lookup[OF k1 assms(4) d1, of fs' p]
  note e2 = tick_events[OF k1 assms(4) d1, of p fs']
  show ?thesis
  proof (cases "tracked p")
    case None
    then show ?thesis using l1 l2 e2 by simp
  next
    case (Some s)
    have ps: "path s = p" using assms(1) Some by (rule reachable_path)
    have m1: "?m1 p = Some (step_state fs s)" using l1 Some by simp
    have "observe fs' (path (step_state fs s)) = observe fs (path (step_state fs s))"
      using assms(6) ps by (simp add: step_state_path)
    then have te: "tick_entry fs' (step_state fs s) = tick_entry fs (step_state fs s)"
      by (rule tick_entry_observe)
    then have st: "step_state fs' (step_state fs s) = step_state fs (step_state fs s)"
      by (simp add: step_state_def)
    show ?thesis
      using l2 e2 m1 te st tick_entry_twice[of fs s p] by simp
  qed
qed

theorem unchanged_cycle_is_silent_witness:
  "observe fs_link ''/d/s'' = observe fs_link ''/d/s'' \<and>
   fst (tick fs_link [''/d/s''] (fst (tick fs_link [''/d/s''] (New [''/d/s''])))) ''/d/s'' =
     Some state_link \<and>
   events_for ''/d/s'' (snd (tick fs_link [''/d/s''] (fst (tick fs_link [''/d/s''] (New [''/d/s''])))))
     = []"
proof -
  have d: "distinct [''/d/s'']" "set [''/d/s''] = dom (New [''/d/s''])"
    by (simp_all add: dom_New)
  have o: "observe fs_link ''/d/s'' = observe fs_link ''/d/s''" by simp
  have l: "fst (tick fs_link [''/d/s''] (New [''/d/s''])) ''/d/s'' = Some state_link"
    using tracked_link_eq by (simp add: tracked_link_def del: tick.simps)
  from unchanged_cycle_is_silent[OF reach_New d d o] l
  show ?thesis by (simp del: tick.simps)
qed

lemma seen_symlink_simps:
  "Lstat fs p = StatErr err \<Longrightarrow> \<not> seen_symlink fs p"
  "Lstat fs p = StatOk i \<Longrightarrow> \<not> ModeSymlink i \<Longrightarrow> \<not> seen_symlink fs p"
  "Lstat fs p = StatOk i \<Longrightarrow> Readlink fs p = Inl e \<Longrightarrow> \<not> seen_symlink fs p"
  "Lstat fs p = StatOk i \<Longrightarrow> ModeSymlink i \<Longrightarrow> Readlink fs p = Inr t \<Longrightarrow> seen_symlink fs p"
  by (simp_all add: seen_symlink_def)

text \<open>One iteration keeps the discipline and the invariant behind it.\<close>

lemma entry_discipline:
  fixes fs :: filesys and s :: state
  assumes inv: "remove_inv armed linked s"
  defines "ops \<equiv> events_for (path s) (snd (tick_entry fs s))"
  defines "created \<equiv> list_ex (\<lambda>x. Has x Create) ops"
  defines "removed \<equiv> list_ex (\<lambda>x. Has x Remove) ops"
  shows "(if armed \<and> removed then linked \<and> seen_absent fs (path s) else True) \<and>
         remove_inv (if created then False else if removed then True else armed)
           (if created then False else if removed then seen_symlink fs (path s)
            else (linked \<or> seen_symlink fs (path s)))
           (step_state fs s)"
proof (cases "Lstat fs (path s)")
  case (StatErr err)
  note ns = seen_symlink_simps(1)[OF StatErr]
  show ?thesis
  proof (cases "IsNotExist err")
    case False
    then show ?thesis
      using tick_entry_lstat_error[OF StatErr False] inv ns
      by (simp add: ops_def created_def removed_def step_state_def)
  next
    case True
    have ab: "seen_absent fs (path s)" using StatErr True by (simp add: seen_absent_def)
    show ?thesis
    proof (cases "info s")
      case None
      then show ?thesis
        using tick_entry_absent[OF StatErr True] inv ns
        by (simp add: ops_def created_def removed_def step_state_def)
    next
      case (Some oi)
      have "armed \<Longrightarrow> linked" using inv Some by (auto simp: remove_inv_def split: if_splits)
      then show ?thesis
        using tick_entry_absent[OF StatErr True] Some ns ab
        by (auto simp: ops_def created_def removed_def step_state_def Has_values
            remove_inv_def empty_state_def)
    qed
  qed
next
  case (StatOk i)
  show ?thesis
  proof (cases "ModeSymlink i")
    case False
    note ns = seen_symlink_simps(2)[OF StatOk False]
    show ?thesis
    proof (cases "info s")
      case None
      then show ?thesis
        using tick_entry_plain[OF StatOk False] ns
        by (simp add: ops_def created_def removed_def step_state_def plain_change_def
            Has_values remove_inv_def)
    next
      case (Some oi)
      have nl: "\<not> (armed \<and> \<not> linked)"
        using inv Some by (auto simp: remove_inv_def split: if_splits)
      show ?thesis
        using tick_entry_plain[OF StatOk False] Some ns nl
        by (auto simp: ops_def created_def removed_def step_state_def plain_change_def
            Has_values remove_inv_def)
    qed
  next
    case True
    show ?thesis
    proof (cases "Readlink fs (path s)")
      case (Inl err)
      note ns = seen_symlink_simps(3)[OF StatOk Inl]
      show ?thesis
        using tick_entry_unreadable[OF StatOk True Inl] inv ns
        by (simp add: ops_def created_def removed_def step_state_def)
    next
      case (Inr t0)
      note ys = seen_symlink_simps(4)[OF StatOk True Inr]
      let ?t = "resolve_target fs (path s) t0"
      note te = tick_entry_symlink[OF StatOk True Inr]
      show ?thesis
      proof (cases "Stat fs ?t")
        case (StatErr err)
        show ?thesis
        proof (cases "AsPathError err \<and> targetInfo s \<noteq> None")
          case True
          then have "\<not> armed" using inv by (auto simp: remove_inv_def split: if_splits)
          then show ?thesis
            using te StatErr True ys
            by (auto simp: ops_def created_def removed_def step_state_def
                target_error_StatErr target_change_StatErr Has_values remove_inv_def)
        next
          case False
          then show ?thesis
            using te StatErr ys
            by (auto simp: ops_def created_def removed_def step_state_def
                target_error_StatErr target_change_StatErr Has_values remove_inv_def)
        qed
      next
        case (StatOk ti)
        show ?thesis
        proof (cases "targetInfo s")
          case None
          then show ?thesis
            using te StatOk ys
            by (simp add: ops_def created_def removed_def step_state_def
                target_error_StatOk target_change_new Has_values remove_inv_def)
        next
          case (Some oti)
          then have "\<not> armed" using inv by (auto simp: remove_inv_def split: if_splits)
          then show ?thesis
            using te StatOk ys Some
            by (auto simp: ops_def created_def removed_def step_state_def
                target_error_StatOk target_change_known Has_values remove_inv_def)
        qed
      qed
    qed
  qed
qed

lemma run_discipline:
  assumes "keyed m" and "dom m = set trackedFiles" and "orders_ok cycles trackedFiles"
    and "case m p of None \<Rightarrow> True | Some s \<Rightarrow> remove_inv armed linked s"
  shows "remove_discipline p armed linked (run cycles m)"
  using assms
proof (induction cycles arbitrary: m armed linked)
  case Nil
  then show ?case by simp
next
  case (Cons c cycles)
  obtain fs ks where c: "c = (fs, ks)" by (cases c)
  have ok: "distinct ks" "set ks = dom m" "orders_ok cycles trackedFiles"
    using Cons.prems(2,3) c by simp_all
  let ?m1 = "fst (tick fs ks m)"
  have k1: "keyed ?m1" using Cons.prems(1) by (rule tick_keyed)
  have d1: "dom ?m1 = set trackedFiles"
    using tick_dom[OF Cons.prems(1), of fs ks] Cons.prems(2) by simp
  note lk = tick_lookup[OF Cons.prems(1) ok(1,2), of fs p]
  note ev = tick_events[OF Cons.prems(1) ok(1,2), of p fs]
  show ?case
  proof (cases "m p")
    case None
    have e: "events_for p (snd (tick fs ks m)) = []" using ev None by simp
    have n1: "?m1 p = None" using lk None by simp
    have "remove_discipline p armed (linked \<or> seen_symlink fs p) (run cycles ?m1)"
      by (rule Cons.IH[OF k1 d1 ok(3)]) (simp add: n1)
    then show ?thesis using c e by (simp del: tick.simps)
  next
    case (Some s)
    have ps: "path s = p" using Cons.prems(1) Some by (simp add: keyed_def)
    have inv: "remove_inv armed linked s" using Cons.prems(4) Some by simp
    let ?ops = "events_for p (snd (tick_entry fs s))"
    let ?created = "list_ex (\<lambda>x. Has x Create) ?ops"
    let ?removed = "list_ex (\<lambda>x. Has x Remove) ?ops"
    let ?armed' = "if ?created then False else if ?removed then True else armed"
    let ?linked' = "if ?created then False else if ?removed then seen_symlink fs p
                    else (linked \<or> seen_symlink fs p)"
    note ed = entry_discipline[OF inv, of fs, unfolded ps]
    have e: "events_for p (snd (tick fs ks m)) = ?ops" using ev Some by simp
    have s1: "?m1 p = Some (step_state fs s)" using lk Some by simp
    have "remove_discipline p ?armed' ?linked' (run cycles ?m1)"
      by (rule Cons.IH[OF k1 d1 ok(3)]) (simp add: s1 ed)
    then show ?thesis using c e ed by (simp add: Let_def del: tick.simps)
  qed
qed

lemma tick_entry_dangling:
  "tick_entry fs_dangling state_link =
     (Some state_dangling, [Emit \<lparr>Name = ''/d/s'', Op = Remove\<rparr>])"
  by (simp add: tick_entry_def fs_dangling_def fs_link_def state_link_def link_s_def
      state_dangling_def resolve_target_def no_entry_def target_error_def target_change_def Let_def)

lemma tick_entry_unlinked:
  "tick_entry fs_empty state_dangling =
     (Some (empty_state ''/d/s''), [Emit \<lparr>Name = ''/d/s'', Op = Remove\<rparr>])"
  by (simp add: tick_entry_def fs_empty_def fs_link_def no_entry_def IsNotExist_def
      state_dangling_def empty_state_def)

lemma example_paths:
  "path state_link = ''/d/s''" "path state_dangling = ''/d/s''" "path state_plain = ''/d/s''"
  by (simp_all add: state_link_def state_dangling_def state_plain_def)

lemma tick_link_first:
  "tick fs_link [''/d/s''] (New [''/d/s'']) =
     ([''/d/s'' \<mapsto> state_link], [Emit \<lparr>Name = ''/d/s'', Op = Create OR Write\<rparr>])"
  by (simp add: New_s tick_single tick_entry_link_first write_back_def empty_state_path
      del: tick.simps)

lemma tick_dangling_second:
  "tick fs_dangling [''/d/s''] [''/d/s'' \<mapsto> state_link] =
     ([''/d/s'' \<mapsto> state_dangling], [Emit \<lparr>Name = ''/d/s'', Op = Remove\<rparr>])"
  by (simp add: tick_single tick_entry_dangling write_back_def example_paths del: tick.simps)

lemma tick_unlinked_third:
  "tick fs_empty [''/d/s''] [''/d/s'' \<mapsto> state_dangling] =
     ([''/d/s'' \<mapsto> empty_state ''/d/s''], [Emit \<lparr>Name = ''/d/s'', Op = Remove\<rparr>])"
  by (simp add: tick_single tick_entry_unlinked write_back_def example_paths del: tick.simps)

lemma unlink_run:
  "path_events ''/d/s'' (run unlink_cycles (New [''/d/s''])) = [Create OR Write, Remove, Remove]"
  by (simp add: unlink_cycles_def tick_link_first tick_dangling_second tick_unlinked_third
      del: tick.simps)

text \<open>
  Claim C2 as stated does not hold. A watcher of the symlink \<^verbatim>\<open>/d/s\<close> sends
  \<^verbatim>\<open>Create|Write\<close> when it first sees the link and its target, \<^verbatim>\<open>Remove\<close> when the target is
  deleted, and \<^verbatim>\<open>Remove\<close> again when the link itself is deleted.
\<close>

theorem remove_twice_counterexample:
  "orders_ok unlink_cycles [''/d/s''] \<and>
   path_events ''/d/s'' (run unlink_cycles (New [''/d/s''])) = [Create OR Write, Remove, Remove] \<and>
   \<not> no_repeated_remove False (path_events ''/d/s'' (run unlink_cycles (New [''/d/s''])))"
  by (simp add: unlink_run Has_values) (simp add: unlink_cycles_def)

text \<open>
  Claim C2, amended. Over any run of cycles from \<^verbatim>\<open>New\<close>, a \<^verbatim>\<open>Remove\<close> for a path follows an
  earlier \<^verbatim>\<open>Remove\<close> for it without a \<^verbatim>\<open>Create\<close> between them only in a cycle that finds
  the path itself absent, and only when the path was seen as a readable symlink in the
  cycle of the earlier \<^verbatim>\<open>Remove\<close> or after it.
\<close>

theorem remove_discipline_kept:
  assumes "orders_ok cycles trackedFiles"
  shows "remove_discipline p False False (run cycles (New trackedFiles))"
proof (rule run_discipline[OF keyed_New dom_New assms])
  show "case New trackedFiles p of None \<Rightarrow> True | Some s \<Rightarrow> remove_inv False False s"
    by (simp add: remove_inv_def split: option.splits)
qed

theorem remove_discipline_kept_witness:
  "orders_ok unlink_cycles [''/d/s''] \<and>
   remove_discipline ''/d/s'' False False (run unlink_cycles (New [''/d/s'']))"
proof -
  have o: "orders_ok unlink_cycles [''/d/s'']" by (simp add: unlink_cycles_def)
  from remove_discipline_kept[OF o] o show ?thesis by blast
qed

end
